theory Spec2Isabelle
  imports Complex_Main "HOL-Library.Char_ord" "HOL-Library.List_Lexorder" "HOL-Library.Multiset"
begin

section \<open>Configuration constants of \<^verbatim>\<open>app.py\<close>\<close>

definition BASE_ELO :: int where
  "BASE_ELO = 1200"

definition K_FACTOR :: real where
  "K_FACTOR = 32"

definition MAX_VOTES_PER_HOUR :: nat where
  "MAX_VOTES_PER_HOUR = 15"


section \<open>Rating engine\<close>

text \<open>
  Python computes \<^verbatim>\<open>expected_score\<close> and \<^verbatim>\<open>update_elo\<close> in binary floating
  point; the model computes with the real numbers the floats stand for. The power
  \<^verbatim>\<open>10 ** x\<close> of the positive base 10 is \<open>10 powr x\<close>. The float power overflows,
  and Python raises, only for an exponent above 308, that is for ratings more than
  123000 apart; the model has no such bound.
\<close>

definition expected_score :: "real \<Rightarrow> real \<Rightarrow> real" where
  "expected_score ra rb = 1 / (1 + 10 powr ((rb - ra) / 400))"

text \<open>
  Python 3's one-argument \<^verbatim>\<open>round\<close> returns an integer and sends a value that lies
  exactly between two integers to the even one.
\<close>

definition py_round :: "real \<Rightarrow> int" where
  "py_round x =
     (let f = \<lfloor>x\<rfloor>; d = x - of_int f
      in if d < 1 / 2 then f
         else if 1 / 2 < d then f + 1
         else if even f then f else f + 1)"

definition update_elo :: "real \<Rightarrow> real \<Rightarrow> real \<Rightarrow> int \<times> int" where
  "update_elo ra rb sa =
     (let ea = expected_score ra rb;
          ra_new = ra + K_FACTOR * (sa - ea);
          rb_new = rb + K_FACTOR * ((1 - sa) - (1 - ea))
      in (py_round ra_new, py_round rb_new))"

section \<open>Data model\<close>

text \<open>
  The two JSON files hold Python dictionaries. A dictionary keeps its keys in insertion
  order and \<^verbatim>\<open>compute_percentiles\<close> and the pair enumeration depend on that order, so
  a dictionary is an association list; its keys are distinct. A user record is the
  dictionary written at registration, with its fixed set of fields.
\<close>

type_synonym email = string

datatype gender = Male | Female

record user =
  password :: string
  elo :: int
  pic :: "string option"
  gender :: gender
  vote_times :: "int list"
  matches_played :: int

text \<open>
  The record that registration stores for a new user; \<open>pw_hash\<close> is the SHA-256 digest
  that \<^verbatim>\<open>hash_password\<close> returns.
\<close>

definition new_user :: "string \<Rightarrow> gender \<Rightarrow> user" where
  "new_user pw_hash g =
     \<lparr>password = pw_hash, elo = BASE_ELO, pic = None, gender = g,
      vote_times = [], matches_played = 0\<rparr>"

type_synonym users_db = "(email \<times> user) list"

type_synonym pair = "email \<times> email"

type_synonym votes_db = "(email \<times> pair list) list"

record store =
  users_file :: users_db
  votes_file :: votes_db

datatype py_error = KeyError

text \<open>\<^verbatim>\<open>d[k] = v\<close>: an existing key keeps its place, a new key goes to the end.\<close>

fun dict_set :: "('k \<times> 'v) list \<Rightarrow> 'k \<Rightarrow> 'v \<Rightarrow> ('k \<times> 'v) list" where
  "dict_set [] k v = [(k, v)]"
| "dict_set ((k', v') # d) k v =
     (if k' = k then (k, v) # d else (k', v') # dict_set d k v)"

text \<open>
  An in-place change of the value stored under \<open>k\<close>, as in
  \<^verbatim>\<open>users[a]["elo"] = ra\<close>; the source reads \<^verbatim>\<open>users[k]\<close> before every such write.
\<close>

definition dict_modify :: "('k \<times> 'v) list \<Rightarrow> 'k \<Rightarrow> ('v \<Rightarrow> 'v) \<Rightarrow> ('k \<times> 'v) list" where
  "dict_modify d k f = map (\<lambda>(k', v). if k' = k then (k', f v) else (k', v)) d"

section \<open>Percentile calculator\<close>

text \<open>
  \<^verbatim>\<open>sorted(..., key=...)\<close> is a stable sort, as \<^const>\<open>sort_key\<close> is. The resulting
  dictionary \<^verbatim>\<open>percentiles\<close> is filled in rank order.
\<close>

text \<open>The expression \<^verbatim>\<open>(rank / (N-1) * 100) if N > 1 else 100\<close> of the loop body.\<close>

definition percentile_of_rank :: "nat \<Rightarrow> nat \<Rightarrow> real" where
  "percentile_of_rank N rank = (if N > 1 then real rank / real (N - 1) * 100 else 100)"

definition compute_percentiles :: "users_db \<Rightarrow> (email \<times> real) list" where
  "compute_percentiles users_list =
     (let sorted_users = sort_key (\<lambda>x. elo (snd x)) users_list;
          N = length sorted_users
      in map (\<lambda>(rank, (email, data)). (email, percentile_of_rank N rank))
             (enumerate 0 sorted_users))"



section \<open>Voting page\<close>

text \<open>
  A \<^verbatim>\<open>datetime\<close> is a count of microseconds; \<^verbatim>\<open>isoformat\<close> and
  \<^verbatim>\<open>fromisoformat\<close> are inverse to each other on it.
\<close>

definition hour :: int where
  "hour = 3600000000"

definition prune_vote_times :: "int \<Rightarrow> int list \<Rightarrow> int list" where
  "prune_vote_times now ts = filter (\<lambda>t. now - t < hour) ts"

text \<open>The truth value of \<^verbatim>\<open>users[u]["pic"]\<close>: \<^verbatim>\<open>None\<close> and the empty string are false.\<close>

definition has_pic :: "user \<Rightarrow> bool" where
  "has_pic u = (case pic u of None \<Rightarrow> False | Some p \<Rightarrow> p \<noteq> [])"

definition eligible :: "users_db \<Rightarrow> email \<Rightarrow> gender \<Rightarrow> email list" where
  "eligible users user_email user_gender =
     map fst (filter (\<lambda>(u, d). has_pic d \<and> u \<noteq> user_email \<and> gender d = user_gender) users)"

definition uploaded_photos_count :: "users_db \<Rightarrow> nat" where
  "uploaded_photos_count users = length (filter (\<lambda>(u, d). has_pic d) users)"

definition use_elo_matching :: "users_db \<Rightarrow> bool" where
  "use_elo_matching users = (uploaded_photos_count users \<ge> 30)"

text \<open>\<^verbatim>\<open>sorted([x, y])\<close> as a pair.\<close>

definition sorted_pair :: "email \<Rightarrow> email \<Rightarrow> pair" where
  "sorted_pair x y = (if y < x then (y, x) else (x, y))"

text \<open>The body of the inner loop, for \<open>x = eligible[i]\<close> and \<open>y = eligible[j]\<close>.\<close>

definition try_pair ::
  "users_db \<Rightarrow> pair list \<Rightarrow> bool \<Rightarrow> email \<Rightarrow> email \<Rightarrow> pair list \<Rightarrow> py_error + pair list" where
  "try_pair users tried_pairs use_elo x y possible_pairs =
     (let pair = sorted_pair x y
      in if pair \<in> set tried_pairs then Inr possible_pairs
         else if use_elo then
           (case map_of users (fst pair) of
              None \<Rightarrow> Inl KeyError
            | Some u0 \<Rightarrow>
                (case map_of users (snd pair) of
                   None \<Rightarrow> Inl KeyError
                 | Some u1 \<Rightarrow>
                     (let elo_diff = \<bar>elo u0 - elo u1\<bar>
                      in if elo_diff \<le> 100 then Inr (possible_pairs @ [pair])
                         else Inr possible_pairs)))
         else Inr (possible_pairs @ [pair]))"

text \<open>\<^verbatim>\<open>for j in range(i + 1, len(eligible))\<close>, over the elements after \<open>eligible[i]\<close>.\<close>

fun inner_loop ::
  "users_db \<Rightarrow> pair list \<Rightarrow> bool \<Rightarrow> email \<Rightarrow> email list \<Rightarrow> pair list \<Rightarrow> py_error + pair list" where
  "inner_loop users tried_pairs use_elo x [] possible_pairs = Inr possible_pairs"
| "inner_loop users tried_pairs use_elo x (y # ys) possible_pairs =
     (case try_pair users tried_pairs use_elo x y possible_pairs of
        Inl e \<Rightarrow> Inl e
      | Inr p \<Rightarrow> inner_loop users tried_pairs use_elo x ys p)"

text \<open>\<^verbatim>\<open>for i in range(len(eligible))\<close>.\<close>

fun outer_loop ::
  "users_db \<Rightarrow> pair list \<Rightarrow> bool \<Rightarrow> email list \<Rightarrow> pair list \<Rightarrow> py_error + pair list" where
  "outer_loop users tried_pairs use_elo [] possible_pairs = Inr possible_pairs"
| "outer_loop users tried_pairs use_elo (x # xs) possible_pairs =
     (case inner_loop users tried_pairs use_elo x xs possible_pairs of
        Inl e \<Rightarrow> Inl e
      | Inr p \<Rightarrow> outer_loop users tried_pairs use_elo xs p)"

text \<open>
  For the statements about the two loops: the sorted pairs of \<open>eligible[i]\<close> and
  \<open>eligible[j]\<close> for all \<open>i < j\<close> in the order in which the loops visit them, the
  test \<^verbatim>\<open>elo_diff <= 100\<close> on a pair, and the condition under which the loop body
  appends a pair.
\<close>

fun all_pairs :: "email list \<Rightarrow> pair list" where
  "all_pairs [] = []"
| "all_pairs (x # xs) = map (sorted_pair x) xs @ all_pairs xs"

definition similar_elo :: "users_db \<Rightarrow> pair \<Rightarrow> bool" where
  "similar_elo users p =
     (case (map_of users (fst p), map_of users (snd p)) of
        (Some u0, Some u1) \<Rightarrow> \<bar>elo u0 - elo u1\<bar> \<le> 100
      | _ \<Rightarrow> False)"

definition candidate :: "users_db \<Rightarrow> pair list \<Rightarrow> bool \<Rightarrow> pair \<Rightarrow> bool" where
  "candidate users tried_pairs use_elo p =
     (p \<notin> set tried_pairs \<and> (\<not> use_elo \<or> similar_elo users p))"

definition build_possible_pairs :: "users_db \<Rightarrow> pair list \<Rightarrow> email list \<Rightarrow> py_error + pair list" where
  "build_possible_pairs users tried_pairs el =
     outer_loop users tried_pairs (use_elo_matching users) el []"

text \<open>
  The body of a button handler, up to \<^verbatim>\<open>st.rerun()\<close>: \<open>sa\<close> is 1 for the left button
  and 0 for the right one. It returns the contents of the two files after the two
  \<^verbatim>\<open>save_json\<close> calls.
\<close>

definition cast_vote ::
  "users_db \<Rightarrow> votes_db \<Rightarrow> email \<Rightarrow> int \<Rightarrow> email \<Rightarrow> email \<Rightarrow> real \<Rightarrow> py_error + store" where
  "cast_vote users votes user_email now a b sa =
     (case map_of users a of
        None \<Rightarrow> Inl KeyError
      | Some ua \<Rightarrow>
     (case map_of users b of
        None \<Rightarrow> Inl KeyError
      | Some ub \<Rightarrow>
     (case map_of votes user_email of
        None \<Rightarrow> Inl KeyError
      | Some history \<Rightarrow>
     (case map_of users user_email of
        None \<Rightarrow> Inl KeyError
      | Some me \<Rightarrow>
     (let (ra, rb) = update_elo (of_int (elo ua)) (of_int (elo ub)) sa;
          users1 = dict_modify users a (\<lambda>u. u\<lparr>elo := ra\<rparr>);
          users2 = dict_modify users1 b (\<lambda>u. u\<lparr>elo := rb\<rparr>);
          users3 = dict_modify users2 a (\<lambda>u. u\<lparr>matches_played := matches_played u + 1\<rparr>);
          users4 = dict_modify users3 b (\<lambda>u. u\<lparr>matches_played := matches_played u + 1\<rparr>);
          votes1 = dict_modify votes user_email (\<lambda>h. h @ [sorted_pair a b]);
          users5 = dict_modify users4 user_email (\<lambda>u. u\<lparr>vote_times := vote_times u @ [now]\<rparr>)
      in Inr \<lparr>users_file = users5, votes_file = votes1\<rparr>)))))"

datatype button = NoClick | LeftClick | RightClick

datatype view =
    LimitReached
  | WaitingForUploads
  | AllPairsRated
  | ShowPair email email
  | Voted email email

text \<open>
  One run of the script with the voting page chosen, for the logged-in user
  \<open>user_email\<close> at time \<open>now\<close>: \<open>st\<close> is the contents of the two files, which the
  script loads at its start; \<open>rnd\<close> stands for the draw of \<^verbatim>\<open>random.choice\<close>, which
  returns the element at some index below the length of the list; \<open>click\<close> is the button
  that triggered the run, if any. The result is what the run arrives at and the contents
  of the two files when it ends. The variables \<open>users\<close> and \<open>votes\<close> are the in-memory
  dictionaries, which reach the files only through \<^verbatim>\<open>save_json\<close>. Reading the files,
  opening the two images and writing the files are taken to succeed.
\<close>

definition vote_page :: "store \<Rightarrow> email \<Rightarrow> int \<Rightarrow> nat \<Rightarrow> button \<Rightarrow> py_error + (view \<times> store)" where
  "vote_page st user_email now rnd click =
     (case map_of (users_file st) user_email of
        None \<Rightarrow> Inl KeyError
      | Some me \<Rightarrow>
     (let user_gender = gender me;
          users = dict_modify (users_file st) user_email
                    (\<lambda>u. u\<lparr>vote_times := prune_vote_times now (vote_times u)\<rparr>)
      in if length (prune_vote_times now (vote_times me)) \<ge> MAX_VOTES_PER_HOUR
         then Inr (LimitReached, st)
         else
           (let el = eligible users user_email user_gender
            in if length el < 2 then Inr (WaitingForUploads, st)
               else
                 (let votes = (case map_of (votes_file st) user_email of
                                 None \<Rightarrow> dict_set (votes_file st) user_email []
                               | Some h \<Rightarrow> votes_file st);
                      tried_pairs = (case map_of (votes_file st) user_email of
                                       None \<Rightarrow> []
                                     | Some h \<Rightarrow> h)
                  in case build_possible_pairs users tried_pairs el of
                       Inl e \<Rightarrow> Inl e
                     | Inr possible_pairs \<Rightarrow>
                         if possible_pairs = [] then Inr (AllPairsRated, st)
                         else
                           (let (a, b) = possible_pairs ! (rnd mod length possible_pairs)
                            in case click of
                                 NoClick \<Rightarrow> Inr (ShowPair a b, st)
                               | LeftClick \<Rightarrow>
                                   (case cast_vote users votes user_email now a b 1 of
                                      Inl e \<Rightarrow> Inl e
                                    | Inr st' \<Rightarrow> Inr (Voted a b, st'))
                               | RightClick \<Rightarrow>
                                   (case cast_vote users votes user_email now a b 0 of
                                      Inl e \<Rightarrow> Inl e
                                    | Inr st' \<Rightarrow> Inr (Voted a b, st')))))))"

text \<open>
  Names for the values that one run of \<open>vote_page\<close> works with: a user record after
  the pruning of its \<open>vote_times\<close>; the voter's history \<open>tried_pairs\<close> and the
  in-memory dictionary \<open>votes\<close>, in which a voter without a history has an empty one;
  the pairs that the two loops collect for a voter of gender \<open>g\<close>; and a user record
  after a match that left it with rating \<open>r\<close>.
\<close>

definition pruned :: "int \<Rightarrow> user \<Rightarrow> user" where
  "pruned now u = u\<lparr>vote_times := prune_vote_times now (vote_times u)\<rparr>"

definition tried_of :: "store \<Rightarrow> email \<Rightarrow> pair list" where
  "tried_of st v = (case map_of (votes_file st) v of None \<Rightarrow> [] | Some h \<Rightarrow> h)"

definition votes_of :: "store \<Rightarrow> email \<Rightarrow> votes_db" where
  "votes_of st v = (case map_of (votes_file st) v of
                      None \<Rightarrow> dict_set (votes_file st) v [] | Some h \<Rightarrow> votes_file st)"

definition pairs_for :: "store \<Rightarrow> email \<Rightarrow> gender \<Rightarrow> pair list" where
  "pairs_for st v g =
     filter (candidate (users_file st) (tried_of st v) (use_elo_matching (users_file st)))
       (all_pairs (eligible (users_file st) v g))"

definition voted_user :: "int \<Rightarrow> user \<Rightarrow> user" where
  "voted_user r u = u\<lparr>elo := r, matches_played := matches_played u + 1\<rparr>"

text \<open>The pair that a run selected, if it selected one.\<close>

fun pair_of :: "view \<Rightarrow> pair option" where
  "pair_of (ShowPair a b) = Some (a, b)"
| "pair_of (Voted a b) = Some (a, b)"
| "pair_of LimitReached = None"
| "pair_of WaitingForUploads = None"
| "pair_of AllPairsRated = None"

section \<open>Sequences of runs\<close>

text \<open>
  A sequence of runs of the voting page. Every run starts from the files as the run
  before left them; a run that raises writes nothing.
\<close>

record attempt =
  voter :: email
  at_time :: int
  draw :: nat
  clicked :: button

definition step :: "store \<Rightarrow> attempt \<Rightarrow> store" where
  "step st x =
     (case vote_page st (voter x) (at_time x) (draw x) (clicked x) of
        Inl e \<Rightarrow> st
      | Inr (v, st') \<Rightarrow> st')"

definition run :: "store \<Rightarrow> attempt list \<Rightarrow> store" where
  "run st xs = foldl step st xs"

text \<open>
  Whether a run accepts a vote; the number of votes of \<open>v\<close> that a sequence of runs
  accepts; and the \<open>vote_times\<close> that the users file holds for \<open>v\<close>.
\<close>

definition accepted :: "store \<Rightarrow> attempt \<Rightarrow> bool" where
  "accepted st x =
     (case vote_page st (voter x) (at_time x) (draw x) (clicked x) of
        Inl e \<Rightarrow> False
      | Inr (vw, st') \<Rightarrow> (case vw of Voted a b \<Rightarrow> True | _ \<Rightarrow> False))"

fun accepted_votes :: "store \<Rightarrow> email \<Rightarrow> attempt list \<Rightarrow> nat" where
  "accepted_votes st v [] = 0"
| "accepted_votes st v (x # xs) =
     (if voter x = v \<and> accepted st x then 1 else 0) + accepted_votes (step st x) v xs"

definition stored_times :: "store \<Rightarrow> email \<Rightarrow> int list" where
  "stored_times st v = (case map_of (users_file st) v of None \<Rightarrow> [] | Some me \<Rightarrow> vote_times me)"

section \<open>Example stores\<close>

text \<open>
  Stores for the concrete statements. \<open>photo_user g r\<close> is a registered user of gender
  \<open>g\<close> with a photo and rating \<open>r\<close>; the voter \<open>v\<close> has no photo. The stores hold
  the voter with one eligible user (\<open>store_one\<close>); with two eligible users at 1200,
  before and after the voter's vote for \<open>a\<close> at time 5 (\<open>store_ab\<close>,
  \<open>store_ab_voted\<close>); with 30 photos, three of them of the voter's gender
  (\<open>store_30\<close>); with two eligible users 200 rating points apart (\<open>store_far\<close>);
  with three eligible users at 1200, before and after the vote for \<open>a\<close> against \<open>b\<close>
  (\<open>store_abc\<close>, \<open>store_abc_voted\<close>); and the same with 14 timestamps stored for the
  voter, before and after a vote at time 20 (\<open>store_busy\<close>, \<open>store_busy_voted\<close>).
\<close>

definition photo_user :: "gender \<Rightarrow> int \<Rightarrow> user" where
  "photo_user g r = new_user [] g\<lparr>pic := Some ''uploads/photo.jpg'', elo := r\<rparr>"

definition store_one :: store where
  "store_one =
     \<lparr>users_file = [(''v'', new_user [] Male), (''a'', photo_user Male 1200)],
      votes_file = []\<rparr>"

definition store_ab :: store where
  "store_ab =
     \<lparr>users_file = [(''v'', new_user [] Male), (''b'', photo_user Male 1200),
                    (''a'', photo_user Male 1200)],
      votes_file = []\<rparr>"

definition store_ab_voted :: store where
  "store_ab_voted =
     \<lparr>users_file =
        [(''v'', new_user [] Male\<lparr>vote_times := [5]\<rparr>),
         (''b'', photo_user Male 1184\<lparr>matches_played := 1\<rparr>),
         (''a'', photo_user Male 1216\<lparr>matches_played := 1\<rparr>)],
      votes_file = [(''v'', [(''a'', ''b'')])]\<rparr>"

definition store_30 :: store where
  "store_30 =
     \<lparr>users_file =
        map (\<lambda>n. (replicate (Suc n) CHR ''f'', photo_user Female 1200)) [0..<27]
        @ [(''v'', new_user [] Male), (''a'', photo_user Male 1200),
           (''b'', photo_user Male 1250), (''c'', photo_user Male 1400)],
      votes_file = []\<rparr>"

definition store_far :: store where
  "store_far =
     \<lparr>users_file = [(''v'', new_user [] Male), (''a'', photo_user Male 1200),
                    (''c'', photo_user Male 1400)],
      votes_file = []\<rparr>"



definition store_busy :: store where
  "store_busy =
     \<lparr>users_file =
        [(''v'', new_user [] Male\<lparr>vote_times := [1, 2, 3, 4, 5, 6, 7, 8, 9, 10, 11, 12, 13, 14]\<rparr>),
         (''a'', photo_user Male 1200), (''b'', photo_user Male 1200),
         (''c'', photo_user Male 1200)],
      votes_file = []\<rparr>"

definition store_busy_voted :: store where
  "store_busy_voted =
     \<lparr>users_file =
        [(''v'', new_user [] Male
                  \<lparr>vote_times := [1, 2, 3, 4, 5, 6, 7, 8, 9, 10, 11, 12, 13, 14, 20]\<rparr>),
         (''a'', photo_user Male 1216\<lparr>matches_played := 1\<rparr>),
         (''b'', photo_user Male 1184\<lparr>matches_played := 1\<rparr>),
         (''c'', photo_user Male 1200)],
      votes_file = [(''v'', [(''a'', ''b'')])]\<rparr>"

section \<open>Properties of the rating engine\<close>


lemma py_round_of_int: "py_round (of_int n) = n"
  by (simp add: py_round_def)

lemma py_round_numeral: "py_round (numeral k) = numeral k"
  using py_round_of_int [of "numeral k"] by simp

lemma expected_score_equal: "expected_score r r = 1 / 2"
  by (simp add: expected_score_def)





section \<open>Properties of the percentile calculator\<close>

lemma compute_percentiles_alt:
  "compute_percentiles us =
     map (\<lambda>(rank, x). (fst x, percentile_of_rank (length us) rank))
         (enumerate 0 (sort_key (\<lambda>x. elo (snd x)) us))"
  by (simp add: compute_percentiles_def Let_def case_prod_unfold)

lemma map_fst_compute_percentiles:
  "map fst (compute_percentiles us) = map fst (sort_key (\<lambda>x. elo (snd x)) us)"
  unfolding compute_percentiles_alt
  by (simp add: case_prod_unfold comp_def flip: map_map[of fst snd, unfolded comp_def])

lemma map_snd_compute_percentiles:
  "map snd (compute_percentiles us) = map (percentile_of_rank (length us)) [0..<length us]"
  unfolding compute_percentiles_alt
  by (simp add: case_prod_unfold comp_def
      flip: map_map[of "percentile_of_rank (length us)" fst, unfolded comp_def])

lemma distinct_keys_sort:
  assumes "distinct (map fst us)"
  shows "distinct (map fst (sort_key f us))"
  using assms by (simp add: distinct_map)

lemma nth_compute_percentiles:
  assumes "r < length us"
  shows "compute_percentiles us ! r =
           (fst (sort_key (\<lambda>x. elo (snd x)) us ! r), percentile_of_rank (length us) r)"
  using assms unfolding compute_percentiles_alt
  by (simp add: nth_enumerate_eq)

lemma length_compute_percentiles: "length (compute_percentiles us) = length us"
  by (simp add: compute_percentiles_alt)

lemma percentile_at_rank:
  assumes "distinct (map fst us)" "r < length us"
  shows "map_of (compute_percentiles us) (fst (sort_key (\<lambda>x. elo (snd x)) us ! r))
           = Some (percentile_of_rank (length us) r)"
proof -
  have d: "distinct (map fst (compute_percentiles us))"
    using assms(1) by (simp add: map_fst_compute_percentiles distinct_keys_sort)
  have "compute_percentiles us ! r \<in> set (compute_percentiles us)"
    using assms(2) by (simp add: length_compute_percentiles)
  then show ?thesis
    using d assms(2) by (simp add: nth_compute_percentiles)
qed

lemma percentile_of_rank_strict:
  assumes "2 \<le> N" "i < j"
  shows "percentile_of_rank N i < percentile_of_rank N j"
  using assms by (simp add: percentile_of_rank_def divide_strict_right_mono)

lemma percentile_of_rank_inj:
  assumes "2 \<le> N"
  shows "inj (percentile_of_rank N)"
proof (rule injI)
  fix i j assume e: "percentile_of_rank N i = percentile_of_rank N j"
  show "i = j"
  proof (rule ccontr)
    assume "i \<noteq> j"
    then consider "i < j" | "j < i" by linarith
    then show False
      using percentile_of_rank_strict [OF assms] e by cases fastforce+
  qed
qed

text \<open>An element that precedes another one in the stably sorted list.\<close>

lemma filter_eq_appendD:
  assumes "filter P zs = as @ bs"
  shows "\<exists>us vs. zs = us @ vs \<and> filter P us = as \<and> filter P vs = bs"
  using assms
proof (induction zs arbitrary: as)
  case Nil
  then show ?case by simp
next
  case (Cons z zs)
  show ?case
  proof (cases "P z")
    case False
    with Cons.prems have "filter P zs = as @ bs" by simp
    from Cons.IH [OF this] obtain us vs
      where "zs = us @ vs" "filter P us = as" "filter P vs = bs" by blast
    with False have "z # zs = (z # us) @ vs \<and> filter P (z # us) = as \<and> filter P vs = bs"
      by simp
    then show ?thesis by blast
  next
    case True
    show ?thesis
    proof (cases as)
      case Nil
      with Cons.prems have "z # zs = [] @ (z # zs) \<and> filter P [] = as \<and> filter P (z # zs) = bs"
        by simp
      then show ?thesis by blast
    next
      case (Cons a as')
      with True Cons.prems have az: "a = z" and "filter P zs = as' @ bs" by simp_all
      from Cons.IH [OF this(2)] obtain us vs
        where "zs = us @ vs" "filter P us = as'" "filter P vs = bs" by blast
      with True az Cons
      have "z # zs = (z # us) @ vs \<and> filter P (z # us) = as \<and> filter P vs = bs"
        by simp
      then show ?thesis by blast
    qed
  qed
qed

lemma filter_before:
  assumes "filter P zs = as @ x # bs @ y # cs"
  shows "\<exists>as' bs' cs'. zs = as' @ x # bs' @ y # cs'"
proof -
  from assms obtain us vs where zs: "zs = us @ vs" and "filter P us = as"
    and vs: "filter P vs = x # bs @ y # cs"
    by (blast dest: filter_eq_appendD)
  from vs obtain us' vs' where vs': "vs = us' @ x # vs'" and r: "filter P vs' = bs @ y # cs"
    by (auto simp: filter_eq_Cons_iff)
  have "y \<in> set (filter P vs')" unfolding r by simp
  then have "y \<in> set vs'" by simp
  then obtain m n where "vs' = m @ y # n" by (auto dest: split_list)
  with zs vs' have "zs = (us @ us') @ x # m @ y # n" by simp
  then show ?thesis by blast
qed

lemma stable_order:
  fixes f :: "'a \<Rightarrow> int"
  assumes "i < j" "j < length xs" "f (xs ! i) = f (xs ! j)"
  shows "\<exists>i' j'. i' < j' \<and> j' < length xs \<and> sort_key f xs ! i' = xs ! i
            \<and> sort_key f xs ! j' = xs ! j"
proof -
  define k where "k = f (xs ! i)"
  define P where "P = (\<lambda>y. f y = k)"
  have Pi: "P (xs ! i)" and Pj: "P (xs ! j)"
    using assms(3) by (simp_all add: P_def k_def)
  have "xs = take i xs @ xs ! i # drop (Suc i) xs"
    using assms by (simp add: id_take_nth_drop)
  moreover have "drop (Suc i) xs = take (j - Suc i) (drop (Suc i) xs) @ xs ! j # drop (Suc j) xs"
    using assms id_take_nth_drop [of "j - Suc i" "drop (Suc i) xs"] by simp
  ultimately obtain as bs cs where xs: "xs = as @ xs ! i # bs @ xs ! j # cs"
    by metis
  have "filter P xs = filter P as @ xs ! i # filter P bs @ xs ! j # filter P cs"
    by (subst xs) (simp add: Pi Pj)
  then have "filter P (sort_key f xs)
      = filter P as @ xs ! i # filter P bs @ xs ! j # filter P cs"
    by (simp add: P_def sort_key_stable)
  from filter_before [OF this] obtain as' bs' cs'
    where s: "sort_key f xs = as' @ xs ! i # bs' @ xs ! j # cs'" by blast
  have len: "length (sort_key f xs) = length xs" by simp
  have "sort_key f xs ! length as' = xs ! i"
    by (subst s) simp
  moreover have "sort_key f xs ! (length as' + Suc (length bs')) = xs ! j"
    by (subst s) (simp add: nth_append)
  moreover have "length as' + Suc (length bs') < length xs"
    using len by (subst (asm) s) simp
  ultimately show ?thesis
    by (intro exI [of _ "length as'"] exI [of _ "length as' + Suc (length bs')"]) simp
qed







text \<open>
  C10: with two or more users, all percentiles that \<open>compute_percentiles\<close> assigns are
  different, and of two users with equal ratings the one that comes first in the input
  gets the lower rank and the lower percentile.
\<close>

theorem compute_percentiles_distinct:
  assumes "distinct (map fst us)" and "2 \<le> length us"
  shows "distinct (map snd (compute_percentiles us))
       \<and> (\<forall>i j. i < j \<and> j < length us \<and> elo (snd (us ! i)) = elo (snd (us ! j)) \<longrightarrow>
            (\<exists>ri rj. ri < rj \<and> rj < length us
               \<and> map_of (compute_percentiles us) (fst (us ! i))
                   = Some (real ri / real (length us - 1) * 100)
               \<and> map_of (compute_percentiles us) (fst (us ! j))
                   = Some (real rj / real (length us - 1) * 100)
               \<and> real ri / real (length us - 1) * 100 < real rj / real (length us - 1) * 100))"
proof -
  have N: "1 < length us" using assms(2) by simp
  have "distinct (map (percentile_of_rank (length us)) [0..<length us])"
    using percentile_of_rank_inj [OF assms(2)]
    by (simp add: distinct_map inj_on_def inj_def)
  then have A: "distinct (map snd (compute_percentiles us))"
    by (simp add: map_snd_compute_percentiles)
  have B: "\<exists>ri rj. ri < rj \<and> rj < length us
               \<and> map_of (compute_percentiles us) (fst (us ! i))
                   = Some (real ri / real (length us - 1) * 100)
               \<and> map_of (compute_percentiles us) (fst (us ! j))
                   = Some (real rj / real (length us - 1) * 100)
               \<and> real ri / real (length us - 1) * 100 < real rj / real (length us - 1) * 100"
    if ij: "i < j" "j < length us" "elo (snd (us ! i)) = elo (snd (us ! j))" for i j
  proof -
    from stable_order [of i j us "\<lambda>x. elo (snd x)", OF ij]
    obtain ri rj where r: "ri < rj" "rj < length us"
      and si: "sort_key (\<lambda>x. elo (snd x)) us ! ri = us ! i"
      and sj: "sort_key (\<lambda>x. elo (snd x)) us ! rj = us ! j"
      by blast
    have "map_of (compute_percentiles us) (fst (us ! i)) = Some (percentile_of_rank (length us) ri)"
      using percentile_at_rank [OF assms(1), of ri] r si by simp
    moreover
    have "map_of (compute_percentiles us) (fst (us ! j)) = Some (percentile_of_rank (length us) rj)"
      using percentile_at_rank [OF assms(1), of rj] r sj by simp
    moreover have "percentile_of_rank (length us) ri < percentile_of_rank (length us) rj"
      using percentile_of_rank_strict [OF assms(2) r(1)] .
    ultimately show ?thesis
      using r N unfolding percentile_of_rank_def by (intro exI [of _ ri] exI [of _ rj]) simp
  qed
  show ?thesis using A B by blast
qed

theorem compute_percentiles_distinct_witness:
  "distinct (map fst [(''b'', new_user [] Male), (''a'', new_user [] Female)])
   \<and> (2::nat) \<le> length [(''b'', new_user [] Male), (''a'', new_user [] Female)]
   \<and> distinct (map snd (compute_percentiles [(''b'', new_user [] Male), (''a'', new_user [] Female)]))
   \<and> compute_percentiles [(''b'', new_user [] Male), (''a'', new_user [] Female)]
       = [(''b'', 0), (''a'', 100)]"
proof -
  let ?us = "[(''b'', new_user [] Male), (''a'', new_user [] Female)]"
  have d: "distinct (map fst ?us)" and l: "(2::nat) \<le> length ?us" by simp_all
  have c: "compute_percentiles ?us = [(''b'', 0), (''a'', 100)]"
    by (simp add: compute_percentiles_def percentile_of_rank_def new_user_def)
  from compute_percentiles_distinct [OF d l] c d l show ?thesis by blast
qed

section \<open>Dictionaries, eligibility and the pair enumeration\<close>

lemma map_fst_dict_modify: "map fst (dict_modify d k f) = map fst d"
  by (induction d) (auto simp: dict_modify_def)

lemma map_of_dict_modify:
  "map_of (dict_modify d k f) k' = (if k' = k then map_option f (map_of d k) else map_of d k')"
  by (induction d) (auto simp: dict_modify_def)

lemma map_of_dict_set: "map_of (dict_set d k v) k' = (if k' = k then Some v else map_of d k')"
  by (induction d) auto

lemma eligible_keys: "x \<in> set (eligible users v g) \<Longrightarrow> \<exists>u. map_of users x = Some u"
  by (induction users) (auto simp: eligible_def split: if_splits)

lemma eligible_not_voter: "x \<in> set (eligible users v g) \<Longrightarrow> x \<noteq> v"
  by (auto simp: eligible_def)

lemma distinct_eligible: "distinct (map fst users) \<Longrightarrow> distinct (eligible users v g)"
  unfolding eligible_def by (induction users) (auto simp: image_iff)

lemma try_pair_ok:
  assumes "use_elo \<Longrightarrow> (\<exists>u. map_of users x = Some u) \<and> (\<exists>u. map_of users y = Some u)"
  shows "try_pair users tried use_elo x y acc
           = Inr (acc @ filter (candidate users tried use_elo) [sorted_pair x y])"
  using assms
  by (auto simp: try_pair_def candidate_def similar_elo_def sorted_pair_def Let_def
      split: option.splits)

lemma inner_loop_ok:
  assumes "use_elo \<Longrightarrow> (\<exists>u. map_of users x = Some u) \<and> (\<forall>y\<in>set ys. \<exists>u. map_of users y = Some u)"
  shows "inner_loop users tried use_elo x ys acc
           = Inr (acc @ filter (candidate users tried use_elo) (map (sorted_pair x) ys))"
  using assms
proof (induction ys arbitrary: acc)
  case Nil
  then show ?case by simp
next
  case (Cons y ys)
  have "try_pair users tried use_elo x y acc
           = Inr (acc @ filter (candidate users tried use_elo) [sorted_pair x y])"
    using Cons.prems by (intro try_pair_ok) simp
  moreover have "inner_loop users tried use_elo x ys acc'
           = Inr (acc' @ filter (candidate users tried use_elo) (map (sorted_pair x) ys))" for acc'
    using Cons.prems by (intro Cons.IH) simp
  ultimately show ?case by simp
qed

lemma outer_loop_ok:
  assumes "use_elo \<Longrightarrow> \<forall>y\<in>set xs. \<exists>u. map_of users y = Some u"
  shows "outer_loop users tried use_elo xs acc
           = Inr (acc @ filter (candidate users tried use_elo) (all_pairs xs))"
  using assms
proof (induction xs arbitrary: acc)
  case Nil
  then show ?case by simp
next
  case (Cons x xs)
  have "inner_loop users tried use_elo x xs acc
           = Inr (acc @ filter (candidate users tried use_elo) (map (sorted_pair x) xs))"
    using Cons.prems by (intro inner_loop_ok) simp
  moreover have "outer_loop users tried use_elo xs acc'
           = Inr (acc' @ filter (candidate users tried use_elo) (all_pairs xs))" for acc'
    using Cons.prems by (intro Cons.IH) simp
  ultimately show ?case by simp
qed

lemma build_possible_pairs_eligible:
  "build_possible_pairs users tried (eligible users v g)
     = Inr (filter (candidate users tried (use_elo_matching users)) (all_pairs (eligible users v g)))"
  unfolding build_possible_pairs_def
  using outer_loop_ok [of "use_elo_matching users" "eligible users v g" users tried "[]"]
  by (simp add: eligible_keys)

lemma set_all_pairs:
  "set (all_pairs xs) = {sorted_pair (xs ! i) (xs ! j) | i j. i < j \<and> j < length xs}"
proof (induction xs)
  case Nil
  then show ?case by simp
next
  case (Cons x xs)
  have "{sorted_pair ((x # xs) ! i) ((x # xs) ! j) | i j. i < j \<and> j < length (x # xs)}
      = sorted_pair x ` set xs \<union> {sorted_pair (xs ! i) (xs ! j) | i j. i < j \<and> j < length xs}"
    (is "?L = ?A \<union> ?B")
  proof (intro equalityI subsetI)
    fix p assume "p \<in> ?L"
    then obtain i j where p: "p = sorted_pair ((x # xs) ! i) ((x # xs) ! j)"
      and ij: "i < j" "j < length (x # xs)" by blast
    show "p \<in> ?A \<union> ?B"
    proof (cases i)
      case 0
      with ij p have "p = sorted_pair x (xs ! (j - 1))" "j - 1 < length xs"
        by (cases j; simp)+
      then show ?thesis by simp
    next
      case (Suc i')
      with ij obtain j' where "j = Suc j'" by (cases j) auto
      with Suc ij p have "p = sorted_pair (xs ! i') (xs ! j')" "i' < j'" "j' < length xs"
        by simp_all
      then show ?thesis by blast
    qed
  next
    fix p assume "p \<in> ?A \<union> ?B"
    then show "p \<in> ?L"
    proof
      assume "p \<in> ?A"
      then obtain y where "y \<in> set xs" "p = sorted_pair x y" by blast
      then obtain j where "j < length xs" "xs ! j = y" by (auto simp: in_set_conv_nth)
      with \<open>p = _\<close> have "p = sorted_pair ((x # xs) ! 0) ((x # xs) ! Suc j)"
        "0 < Suc j" "Suc j < length (x # xs)" by simp_all
      then show ?thesis by blast
    next
      assume "p \<in> ?B"
      then obtain i j where "p = sorted_pair (xs ! i) (xs ! j)" "i < j" "j < length xs" by blast
      then have "p = sorted_pair ((x # xs) ! Suc i) ((x # xs) ! Suc j)"
        "Suc i < Suc j" "Suc j < length (x # xs)" by simp_all
      then show ?thesis by blast
    qed
  qed
  with Cons.IH show ?case by simp
qed

lemma all_pairs_members:
  "(a, b) \<in> set (all_pairs xs) \<Longrightarrow> a \<in> set xs \<and> b \<in> set xs \<and> a \<le> b"
  by (induction xs) (auto simp: sorted_pair_def split: if_splits)

lemma all_pairs_distinct:
  "distinct xs \<Longrightarrow> (a, b) \<in> set (all_pairs xs) \<Longrightarrow> a < b"
proof (induction xs)
  case Nil
  then show ?case by simp
next
  case (Cons x xs)
  from Cons.prems(2) consider y where "y \<in> set xs" "(a, b) = sorted_pair x y"
    | "(a, b) \<in> set (all_pairs xs)" by auto
  then show ?case
  proof cases
    case 1
    with Cons.prems(1) have "x \<noteq> y" by auto
    with 1(2) show ?thesis
      by (auto simp: sorted_pair_def split: if_splits)
  next
    case 2
    with Cons show ?thesis by simp
  qed
qed

lemma all_pairs_Nil_iff: "all_pairs xs = [] \<longleftrightarrow> length xs < 2"
  by (induction xs rule: all_pairs.induct) (auto simp: Suc_less_eq2 less_Suc_eq_0_disj)

lemma dict_modify_Nil: "dict_modify [] k f = []"
  by (simp add: dict_modify_def)

lemma dict_modify_Cons:
  "dict_modify ((k', u) # d) k f = (k', if k' = k then f u else u) # dict_modify d k f"
  by (simp add: dict_modify_def)

lemma eligible_Nil: "eligible [] v g = []"
  by (simp add: eligible_def)

lemma eligible_Cons:
  "eligible ((k, u) # d) v g =
     (if has_pic u \<and> k \<noteq> v \<and> gender u = g then k # eligible d v g else eligible d v g)"
  by (simp add: eligible_def)

lemma has_pic_cong: "pic u' = pic u \<Longrightarrow> has_pic u' = has_pic u"
  by (simp add: has_pic_def)

lemma eligible_dict_modify:
  assumes "\<And>u. pic (f u) = pic u" "\<And>u. gender (f u) = gender u"
  shows "eligible (dict_modify d k f) v g = eligible d v g"
proof (induction d)
  case Nil
  show ?case by (simp add: dict_modify_Nil)
next
  case (Cons x d)
  obtain k' u where x: "x = (k', u)" by (cases x)
  have "has_pic (f u) = has_pic u" by (rule has_pic_cong) (rule assms)
  with Cons show ?case
    by (simp add: x dict_modify_Cons eligible_Cons assms(2))
qed

lemma uploaded_photos_count_Cons:
  "uploaded_photos_count ((k, u) # d) = (if has_pic u then 1 else 0) + uploaded_photos_count d"
  by (simp add: uploaded_photos_count_def)

lemma use_elo_matching_dict_modify:
  assumes "\<And>u. pic (f u) = pic u"
  shows "use_elo_matching (dict_modify d k f) = use_elo_matching d"
proof -
  have "uploaded_photos_count (dict_modify d k f) = uploaded_photos_count d"
  proof (induction d)
    case Nil
    show ?case by (simp add: dict_modify_Nil)
  next
    case (Cons x d)
    obtain k' u where x: "x = (k', u)" by (cases x)
    have "has_pic (f u) = has_pic u" by (rule has_pic_cong) (rule assms)
    with Cons show ?case
      by (simp add: x dict_modify_Cons uploaded_photos_count_Cons)
  qed
  then show ?thesis
    by (simp add: use_elo_matching_def)
qed

lemma similar_elo_dict_modify:
  assumes "\<And>u. elo (f u) = elo u"
  shows "similar_elo (dict_modify d k f) p = similar_elo d p"
  by (auto simp: similar_elo_def map_of_dict_modify assms split: option.splits)

lemma candidate_dict_modify:
  assumes "\<And>u. elo (f u) = elo u"
  shows "candidate (dict_modify d k f) tried flag = candidate d tried flag"
  by (rule ext) (simp add: candidate_def similar_elo_dict_modify assms)

lemma vote_page_eq:
  assumes "map_of (users_file st) v = Some me"
  shows "vote_page st v now rnd click =
     (if MAX_VOTES_PER_HOUR \<le> length (prune_vote_times now (vote_times me))
      then Inr (LimitReached, st)
      else if length (eligible (users_file st) v (gender me)) < 2
      then Inr (WaitingForUploads, st)
      else if pairs_for st v (gender me) = [] then Inr (AllPairsRated, st)
      else
        (let p = pairs_for st v (gender me) ! (rnd mod length (pairs_for st v (gender me)))
         in case click of
              NoClick \<Rightarrow> Inr (ShowPair (fst p) (snd p), st)
            | LeftClick \<Rightarrow>
                (case cast_vote (dict_modify (users_file st) v (pruned now)) (votes_of st v)
                        v now (fst p) (snd p) 1 of
                   Inl e \<Rightarrow> Inl e
                 | Inr st' \<Rightarrow> Inr (Voted (fst p) (snd p), st'))
            | RightClick \<Rightarrow>
                (case cast_vote (dict_modify (users_file st) v (pruned now)) (votes_of st v)
                        v now (fst p) (snd p) 0 of
                   Inl e \<Rightarrow> Inl e
                 | Inr st' \<Rightarrow> Inr (Voted (fst p) (snd p), st'))))"
proof -
  let ?users = "dict_modify (users_file st) v
                  (\<lambda>u. u\<lparr>vote_times := prune_vote_times now (vote_times u)\<rparr>)"
  have e: "eligible ?users v g = eligible (users_file st) v g" for g
    by (rule eligible_dict_modify) simp_all
  have u: "use_elo_matching ?users = use_elo_matching (users_file st)"
    by (rule use_elo_matching_dict_modify) simp
  have c: "candidate ?users tried flag = candidate (users_file st) tried flag" for tried flag
    by (rule candidate_dict_modify) simp
  have b: "build_possible_pairs ?users (tried_of st v) (eligible (users_file st) v (gender me))
             = Inr (pairs_for st v (gender me))"
    using build_possible_pairs_eligible [of ?users "tried_of st v" v "gender me"]
    by (simp add: e u c pairs_for_def)
  have p: "pruned now = (\<lambda>u. u\<lparr>vote_times := prune_vote_times now (vote_times u)\<rparr>)"
    by (rule ext) (simp add: pruned_def)
  show ?thesis
    unfolding vote_page_def Let_def
    by (simp add: assms e b [unfolded tried_of_def] p votes_of_def case_prod_unfold
        split: button.splits)
qed

lemma vote_page_no_user:
  "map_of (users_file st) v = None \<Longrightarrow> vote_page st v now rnd click = Inl KeyError"
  by (simp add: vote_page_def)

lemma pairs_for_member:
  assumes "p \<in> set (pairs_for st v g)"
  shows "fst p \<in> set (eligible (users_file st) v g)"
    and "snd p \<in> set (eligible (users_file st) v g)"
    and "fst p \<le> snd p"
    and "p \<notin> set (tried_of st v)"
    and "use_elo_matching (users_file st) \<Longrightarrow> similar_elo (users_file st) p"
    and "distinct (map fst (users_file st)) \<Longrightarrow> fst p < snd p"
proof -
  have m: "(fst p, snd p) \<in> set (all_pairs (eligible (users_file st) v g))"
    and c: "candidate (users_file st) (tried_of st v) (use_elo_matching (users_file st)) p"
    using assms by (simp_all add: pairs_for_def)
  from all_pairs_members [OF m]
  show "fst p \<in> set (eligible (users_file st) v g)"
    and "snd p \<in> set (eligible (users_file st) v g)" and "fst p \<le> snd p"
    by simp_all
  from c show "p \<notin> set (tried_of st v)" by (simp add: candidate_def)
  from c show "use_elo_matching (users_file st) \<Longrightarrow> similar_elo (users_file st) p"
    by (simp add: candidate_def)
  show "distinct (map fst (users_file st)) \<Longrightarrow> fst p < snd p"
    using all_pairs_distinct [OF distinct_eligible m] by simp
qed

lemma chosen_member: "ps \<noteq> [] \<Longrightarrow> ps ! (rnd mod length ps) \<in> set ps"
  by simp

lemma map_of_votes_of:
  "map_of (votes_of st v) k = (if k = v then Some (tried_of st v) else map_of (votes_file st) k)"
  by (simp add: votes_of_def tried_of_def map_of_dict_set split: option.splits)

lemma cast_vote_ok:
  assumes "map_of users a = Some ua" "map_of users b = Some ub"
    and "map_of votes v = Some h" "map_of users v = Some me"
    and "a \<noteq> b" "a \<noteq> v" "b \<noteq> v"
  shows "\<exists>st'. cast_vote users votes v now a b sa = Inr st'
     \<and> map fst (users_file st') = map fst users
     \<and> map fst (votes_file st') = map fst votes
     \<and> map_of (users_file st') a
          = Some (voted_user (fst (update_elo (of_int (elo ua)) (of_int (elo ub)) sa)) ua)
     \<and> map_of (users_file st') b
          = Some (voted_user (snd (update_elo (of_int (elo ua)) (of_int (elo ub)) sa)) ub)
     \<and> map_of (users_file st') v = Some (me\<lparr>vote_times := vote_times me @ [now]\<rparr>)
     \<and> (\<forall>k. k \<noteq> a \<and> k \<noteq> b \<and> k \<noteq> v \<longrightarrow> map_of (users_file st') k = map_of users k)
     \<and> map_of (votes_file st') v = Some (h @ [sorted_pair a b])
     \<and> (\<forall>k. k \<noteq> v \<longrightarrow> map_of (votes_file st') k = map_of votes k)"
  using assms
  by (simp add: cast_vote_def Let_def case_prod_unfold map_of_dict_modify map_fst_dict_modify
      voted_user_def)

section \<open>The outcomes of a run of the voting page\<close>

lemma vote_page_registered:
  assumes "vote_page st v now rnd click = Inr r"
  shows "\<exists>me. map_of (users_file st) v = Some me"
  using assms vote_page_no_user [of st v now rnd click] by (cases "map_of (users_file st) v") auto

lemma vote_page_limit:
  assumes "map_of (users_file st) v = Some me"
    and "MAX_VOTES_PER_HOUR \<le> length (prune_vote_times now (vote_times me))"
  shows "vote_page st v now rnd click = Inr (LimitReached, st)"
  using assms by (simp add: vote_page_eq)

lemma vote_page_waiting:
  assumes "map_of (users_file st) v = Some me"
    and "length (prune_vote_times now (vote_times me)) < MAX_VOTES_PER_HOUR"
    and "length (eligible (users_file st) v (gender me)) < 2"
  shows "vote_page st v now rnd click = Inr (WaitingForUploads, st)"
  using assms by (simp add: vote_page_eq)

lemma vote_page_all_rated:
  assumes "map_of (users_file st) v = Some me"
    and "length (prune_vote_times now (vote_times me)) < MAX_VOTES_PER_HOUR"
    and "2 \<le> length (eligible (users_file st) v (gender me))"
    and "pairs_for st v (gender me) = []"
  shows "vote_page st v now rnd click = Inr (AllPairsRated, st)"
  using assms by (simp add: vote_page_eq)

lemma cast_vote_in_page:
  assumes me: "map_of (users_file st) v = Some me"
    and p: "p \<in> set (pairs_for st v (gender me))"
    and d: "distinct (map fst (users_file st))"
  shows "\<exists>st' ua ub. cast_vote (dict_modify (users_file st) v (pruned now)) (votes_of st v)
                   v now (fst p) (snd p) sa = Inr st'
     \<and> map_of (users_file st) (fst p) = Some ua
     \<and> map_of (users_file st) (snd p) = Some ub
     \<and> map fst (users_file st') = map fst (users_file st)
     \<and> map_of (users_file st') (fst p)
          = Some (voted_user (fst (update_elo (of_int (elo ua)) (of_int (elo ub)) sa)) ua)
     \<and> map_of (users_file st') (snd p)
          = Some (voted_user (snd (update_elo (of_int (elo ua)) (of_int (elo ub)) sa)) ub)
     \<and> map_of (users_file st') v
          = Some (me\<lparr>vote_times := prune_vote_times now (vote_times me) @ [now]\<rparr>)
     \<and> (\<forall>k. k \<noteq> fst p \<and> k \<noteq> snd p \<and> k \<noteq> v
            \<longrightarrow> map_of (users_file st') k = map_of (users_file st) k)
     \<and> map_of (votes_file st') v = Some (tried_of st v @ [p])
     \<and> (\<forall>k. k \<noteq> v \<longrightarrow> map_of (votes_file st') k = map_of (votes_file st) k)"
proof -
  let ?users = "dict_modify (users_file st) v (pruned now)"
  note m = pairs_for_member [OF p]
  have av: "fst p \<noteq> v" and bv: "snd p \<noteq> v"
    using m(1,2) by (auto dest: eligible_not_voter)
  have ab: "fst p < snd p" using m(6) [OF d] .
  then have ne: "fst p \<noteq> snd p" by simp
  obtain ua where ua: "map_of (users_file st) (fst p) = Some ua"
    using eligible_keys [OF m(1)] by blast
  obtain ub where ub: "map_of (users_file st) (snd p) = Some ub"
    using eligible_keys [OF m(2)] by blast
  have ua': "map_of ?users (fst p) = Some ua" and ub': "map_of ?users (snd p) = Some ub"
    using ua ub av bv by (simp_all add: map_of_dict_modify)
  have me': "map_of ?users v = Some (pruned now me)"
    using me by (simp add: map_of_dict_modify)
  have h: "map_of (votes_of st v) v = Some (tried_of st v)"
    by (simp add: map_of_votes_of)
  have sp: "sorted_pair (fst p) (snd p) = p"
    using ab by (auto simp: sorted_pair_def dest: less_asym)
  from cast_vote_ok [OF ua' ub' h me' ne av bv, of now sa]
  obtain st' where c: "cast_vote ?users (votes_of st v) v now (fst p) (snd p) sa = Inr st'"
    and k: "map fst (users_file st') = map fst ?users"
    and a: "map_of (users_file st') (fst p)
          = Some (voted_user (fst (update_elo (of_int (elo ua)) (of_int (elo ub)) sa)) ua)"
    and b: "map_of (users_file st') (snd p)
          = Some (voted_user (snd (update_elo (of_int (elo ua)) (of_int (elo ub)) sa)) ub)"
    and vv: "map_of (users_file st') v = Some (pruned now me\<lparr>vote_times := vote_times (pruned now me) @ [now]\<rparr>)"
    and o: "\<forall>k. k \<noteq> fst p \<and> k \<noteq> snd p \<and> k \<noteq> v \<longrightarrow> map_of (users_file st') k = map_of ?users k"
    and hv: "map_of (votes_file st') v = Some (tried_of st v @ [sorted_pair (fst p) (snd p)])"
    and ho: "\<forall>k. k \<noteq> v \<longrightarrow> map_of (votes_file st') k = map_of (votes_of st v) k"
    by blast
  have 1: "map fst (users_file st') = map fst (users_file st)"
    using k by (simp add: map_fst_dict_modify)
  have 2: "map_of (users_file st') v
          = Some (me\<lparr>vote_times := prune_vote_times now (vote_times me) @ [now]\<rparr>)"
    using vv by (simp add: pruned_def)
  have 3: "\<forall>k. k \<noteq> fst p \<and> k \<noteq> snd p \<and> k \<noteq> v
            \<longrightarrow> map_of (users_file st') k = map_of (users_file st) k"
    using o by (simp add: map_of_dict_modify)
  have 4: "map_of (votes_file st') v = Some (tried_of st v @ [p])"
    using hv sp by simp
  have 5: "\<forall>k. k \<noteq> v \<longrightarrow> map_of (votes_file st') k = map_of (votes_file st) k"
    using ho by (simp add: map_of_votes_of)
  from c ua ub 1 a b 2 3 4 5 show ?thesis by blast
qed


lemma vote_page_cases:
  assumes "vote_page st v now rnd click = Inr (vw, st')"
  obtains
    (limit) me where "map_of (users_file st) v = Some me"
      and "MAX_VOTES_PER_HOUR \<le> length (prune_vote_times now (vote_times me))"
      and "vw = LimitReached" and "st' = st"
  | (waiting) me where "map_of (users_file st) v = Some me"
      and "length (prune_vote_times now (vote_times me)) < MAX_VOTES_PER_HOUR"
      and "length (eligible (users_file st) v (gender me)) < 2"
      and "vw = WaitingForUploads" and "st' = st"
  | (rated) me where "map_of (users_file st) v = Some me"
      and "length (prune_vote_times now (vote_times me)) < MAX_VOTES_PER_HOUR"
      and "2 \<le> length (eligible (users_file st) v (gender me))"
      and "pairs_for st v (gender me) = []"
      and "vw = AllPairsRated" and "st' = st"
  | (shown) me p where "map_of (users_file st) v = Some me"
      and "length (prune_vote_times now (vote_times me)) < MAX_VOTES_PER_HOUR"
      and "p \<in> set (pairs_for st v (gender me))"
      and "click = NoClick" and "vw = ShowPair (fst p) (snd p)" and "st' = st"
  | (voted) me p where "map_of (users_file st) v = Some me"
      and "length (prune_vote_times now (vote_times me)) < MAX_VOTES_PER_HOUR"
      and "p \<in> set (pairs_for st v (gender me))"
      and "click \<noteq> NoClick" and "vw = Voted (fst p) (snd p)"
      and "cast_vote (dict_modify (users_file st) v (pruned now)) (votes_of st v) v now
             (fst p) (snd p) (if click = LeftClick then 1 else 0) = Inr st'"
proof -
  from vote_page_registered [OF assms] obtain me
    where me: "map_of (users_file st) v = Some me" by blast
  let ?ps = "pairs_for st v (gender me)"
  let ?p = "?ps ! (rnd mod length ?ps)"
  note eq = assms [unfolded vote_page_eq [OF me]]
  show thesis
  proof (cases "MAX_VOTES_PER_HOUR \<le> length (prune_vote_times now (vote_times me))")
    case True
    with eq me show thesis by (intro limit [of me]) simp_all
  next
    case nl: False
    show thesis
    proof (cases "length (eligible (users_file st) v (gender me)) < 2")
      case True
      with eq me nl show thesis by (intro waiting [of me]) simp_all
    next
      case ne: False
      show thesis
      proof (cases "?ps = []")
        case True
        with eq me nl ne show thesis by (intro rated [of me]) simp_all
      next
        case np: False
        then have mem: "?p \<in> set ?ps" by (rule chosen_member)
        show thesis
        proof (cases click)
          case NoClick
          with eq me nl ne np mem show thesis
            by (intro shown [of me ?p]) (auto simp: Let_def)
        next
          case LeftClick
          with eq me nl ne np mem show thesis
            by (intro voted [of me ?p]) (auto simp: Let_def split: sum.splits)
        next
          case RightClick
          with eq me nl ne np mem show thesis
            by (intro voted [of me ?p]) (auto simp: Let_def split: sum.splits)
        qed
      qed
    qed
  qed
qed

lemma blocked_unchanged:
  assumes "vote_page st v now rnd click = Inr (vw, st')" and "pair_of vw = None"
  shows "st' = st"
  using assms(1)
  by (cases rule: vote_page_cases) (use assms(2) in simp_all)

lemma selected_in_pairs_for:
  assumes "vote_page st v now rnd click = Inr (vw, st')" and "pair_of vw = Some p"
  shows "\<exists>me. map_of (users_file st) v = Some me \<and> p \<in> set (pairs_for st v (gender me))"
  using assms(1)
  by (cases rule: vote_page_cases) (use assms(2) in auto)

section \<open>Blocked attempts\<close>

lemma cast_vote_result:
  assumes "cast_vote users votes v now a b sa = Inr st'"
  shows "votes_file st' = dict_modify votes v (\<lambda>h. h @ [sorted_pair a b])"
    and "map fst (users_file st') = map fst users"
    and "k \<noteq> a \<Longrightarrow> k \<noteq> b \<Longrightarrow>
           map_of (users_file st') k
             = (if k = v then map_option (\<lambda>u. u\<lparr>vote_times := vote_times u @ [now]\<rparr>) (map_of users k)
                else map_of users k)"
    and "v \<noteq> k \<Longrightarrow>
           map_option vote_times (map_of (users_file st') k) = map_option vote_times (map_of users k)"
proof -
  from assms obtain ra rb where
    st': "st' = \<lparr>users_file =
            dict_modify (dict_modify (dict_modify (dict_modify (dict_modify users
              a (\<lambda>u. u\<lparr>elo := ra\<rparr>))
              b (\<lambda>u. u\<lparr>elo := rb\<rparr>))
              a (\<lambda>u. u\<lparr>matches_played := matches_played u + 1\<rparr>))
              b (\<lambda>u. u\<lparr>matches_played := matches_played u + 1\<rparr>))
              v (\<lambda>u. u\<lparr>vote_times := vote_times u @ [now]\<rparr>),
          votes_file = dict_modify votes v (\<lambda>h. h @ [sorted_pair a b])\<rparr>"
    by (auto simp: cast_vote_def Let_def case_prod_unfold split: option.splits)
  show "votes_file st' = dict_modify votes v (\<lambda>h. h @ [sorted_pair a b])"
    by (simp add: st')
  show "map fst (users_file st') = map fst users"
    by (simp add: st' map_fst_dict_modify)
  show "k \<noteq> a \<Longrightarrow> k \<noteq> b \<Longrightarrow>
           map_of (users_file st') k
             = (if k = v then map_option (\<lambda>u. u\<lparr>vote_times := vote_times u @ [now]\<rparr>) (map_of users k)
                else map_of users k)"
    by (simp add: st' map_of_dict_modify)
  show "v \<noteq> k \<Longrightarrow>
           map_option vote_times (map_of (users_file st') k) = map_option vote_times (map_of users k)"
    by (cases "map_of users k") (auto simp: st' map_of_dict_modify)
qed

lemma cast_vote_total:
  assumes "map_of users a = Some ua" "map_of users b = Some ub"
    and "map_of votes v = Some h" "map_of users v = Some me"
  shows "\<exists>st'. cast_vote users votes v now a b sa = Inr st'"
  using assms by (simp add: cast_vote_def Let_def case_prod_unfold)

lemma vote_page_total:
  assumes me: "map_of (users_file st) v = Some me"
  shows "\<exists>r. vote_page st v now rnd click = Inr r"
proof -
  let ?ps = "pairs_for st v (gender me)"
  let ?p = "?ps ! (rnd mod length ?ps)"
  let ?users = "dict_modify (users_file st) v (pruned now)"
  have c: "\<exists>st'. cast_vote ?users (votes_of st v) v now (fst ?p) (snd ?p) sa = Inr st'"
    if np: "?ps \<noteq> []" for sa
  proof -
    note m = pairs_for_member [OF chosen_member [OF np]]
    have "fst ?p \<noteq> v" "snd ?p \<noteq> v"
      using m(1,2) by (auto dest: eligible_not_voter)
    moreover obtain ua ub where "map_of (users_file st) (fst ?p) = Some ua"
      "map_of (users_file st) (snd ?p) = Some ub"
      using eligible_keys [OF m(1)] eligible_keys [OF m(2)] by blast
    ultimately have "map_of ?users (fst ?p) = Some ua" "map_of ?users (snd ?p) = Some ub"
      by (simp_all add: map_of_dict_modify)
    moreover have "map_of (votes_of st v) v = Some (tried_of st v)"
      by (simp add: map_of_votes_of)
    moreover have "map_of ?users v = Some (pruned now me)"
      using me by (simp add: map_of_dict_modify)
    ultimately show ?thesis by (rule cast_vote_total)
  qed
  show ?thesis
  proof (cases "?ps = []")
    case True
    then show ?thesis by (simp add: vote_page_eq [OF me])
  next
    case False
    from c [OF False, of 1] c [OF False, of 0] show ?thesis
      by (cases click) (auto simp: vote_page_eq [OF me] Let_def)
  qed
qed

lemma pairs_for_Nil_iff:
  "pairs_for st v g = [] \<longleftrightarrow>
     (\<forall>p\<in>set (all_pairs (eligible (users_file st) v g)).
        \<not> candidate (users_file st) (tried_of st v) (use_elo_matching (users_file st)) p)"
  by (simp add: pairs_for_def filter_empty_conv)

text \<open>
  C8: for a registered voter below the rate limit, a run with fewer than two eligible
  users ends in the value \<open>WaitingForUploads\<close>, and a run in which no pair of eligible
  users is a candidate ends in the value \<open>AllPairsRated\<close>; both carry no pair and the
  unchanged files, and no run for a registered voter raises.
\<close>

theorem no_pair_available:
  assumes "map_of (users_file st) v = Some me"
    and "length (prune_vote_times now (vote_times me)) < MAX_VOTES_PER_HOUR"
  shows "(length (eligible (users_file st) v (gender me)) < 2
            \<longrightarrow> vote_page st v now rnd click = Inr (WaitingForUploads, st))
       \<and> (2 \<le> length (eligible (users_file st) v (gender me))
          \<and> (\<forall>p\<in>set (all_pairs (eligible (users_file st) v (gender me))).
                \<not> candidate (users_file st) (tried_of st v) (use_elo_matching (users_file st)) p)
            \<longrightarrow> vote_page st v now rnd click = Inr (AllPairsRated, st))
       \<and> pair_of WaitingForUploads = None \<and> pair_of AllPairsRated = None
       \<and> (\<exists>r. vote_page st v now rnd click = Inr r)"
  using vote_page_waiting [OF assms] vote_page_all_rated [OF assms]
    vote_page_total [OF assms(1)]
  by (simp add: pairs_for_Nil_iff)

theorem no_pair_available_witness:
  "vote_page store_one ''v'' 0 0 NoClick = Inr (WaitingForUploads, store_one)
   \<and> vote_page store_ab_voted ''v'' 7 0 LeftClick = Inr (AllPairsRated, store_ab_voted)"
proof -
  have 1: "map_of (users_file store_one) ''v'' = Some (new_user [] Male)"
    and 2: "length (prune_vote_times 0 (vote_times (new_user [] Male))) < MAX_VOTES_PER_HOUR"
    and 3: "length (eligible (users_file store_one) ''v'' (gender (new_user [] Male))) < 2"
    by code_simp+
  have 4: "map_of (users_file store_ab_voted) ''v'' = Some (new_user [] Male\<lparr>vote_times := [5]\<rparr>)"
    and 5: "length (prune_vote_times 7 (vote_times (new_user [] Male\<lparr>vote_times := [5]\<rparr>)))
              < MAX_VOTES_PER_HOUR"
    and 6: "2 \<le> length (eligible (users_file store_ab_voted) ''v''
                 (gender (new_user [] Male\<lparr>vote_times := [5]\<rparr>)))"
    and 7: "\<forall>p\<in>set (all_pairs (eligible (users_file store_ab_voted) ''v''
                 (gender (new_user [] Male\<lparr>vote_times := [5]\<rparr>)))).
                \<not> candidate (users_file store_ab_voted) (tried_of store_ab_voted ''v'')
                    (use_elo_matching (users_file store_ab_voted)) p"
    by code_simp+
  from no_pair_available [OF 1 2, of 0 NoClick] 3
    no_pair_available [OF 4 5, of 0 LeftClick] 6 7
  show ?thesis by blast
qed

text \<open>
  C9: a run for a registered voter that meets the rate limit, finds fewer than two
  eligible users or finds no candidate pair leaves both files as they were; and whenever
  a run ends in one of the three blocked values, the files are unchanged.
\<close>

theorem blocked_attempt_writes_nothing:
  assumes "map_of (users_file st) v = Some me"
    and "MAX_VOTES_PER_HOUR \<le> length (prune_vote_times now (vote_times me))
         \<or> length (eligible (users_file st) v (gender me)) < 2
         \<or> pairs_for st v (gender me) = []"
  shows "(\<exists>vw. vote_page st v now rnd click = Inr (vw, st)
              \<and> (vw = LimitReached \<or> vw = WaitingForUploads \<or> vw = AllPairsRated))
       \<and> step st \<lparr>voter = v, at_time = now, draw = rnd, clicked = click\<rparr> = st
       \<and> (\<forall>v' now' rnd' click' vw st'.
             vote_page st v' now' rnd' click' = Inr (vw, st')
             \<and> (vw = LimitReached \<or> vw = WaitingForUploads \<or> vw = AllPairsRated)
             \<longrightarrow> users_file st' = users_file st \<and> votes_file st' = votes_file st)"
proof -
  have A: "\<exists>vw. vote_page st v now rnd click = Inr (vw, st)
              \<and> (vw = LimitReached \<or> vw = WaitingForUploads \<or> vw = AllPairsRated)"
  proof (cases "MAX_VOTES_PER_HOUR \<le> length (prune_vote_times now (vote_times me))")
    case True
    from vote_page_limit [OF assms(1) this] show ?thesis by blast
  next
    case nl: False
    then have lt: "length (prune_vote_times now (vote_times me)) < MAX_VOTES_PER_HOUR" by simp
    show ?thesis
    proof (cases "length (eligible (users_file st) v (gender me)) < 2")
      case True
      from vote_page_waiting [OF assms(1) lt this] show ?thesis by blast
    next
      case False
      with nl assms(2) have "pairs_for st v (gender me) = []" by blast
      from vote_page_all_rated [OF assms(1) lt _ this] False show ?thesis by auto
    qed
  qed
  then have B: "step st \<lparr>voter = v, at_time = now, draw = rnd, clicked = click\<rparr> = st"
    by (auto simp: step_def)
  have C: "users_file st' = users_file st \<and> votes_file st' = votes_file st"
    if "vote_page st v' now' rnd' click' = Inr (vw, st')"
      and "vw = LimitReached \<or> vw = WaitingForUploads \<or> vw = AllPairsRated"
    for v' now' rnd' click' vw st'
    using blocked_unchanged [OF that(1)] that(2) by auto
  from A B C show ?thesis by blast
qed

theorem blocked_attempt_writes_nothing_witness:
  "map_of (users_file store_ab_voted) ''v'' = Some (new_user [] Male\<lparr>vote_times := [5]\<rparr>)
   \<and> pairs_for store_ab_voted ''v'' Male = []
   \<and> step store_ab_voted \<lparr>voter = ''v'', at_time = 7, draw = 0, clicked = RightClick\<rparr>
       = store_ab_voted"
proof -
  have 1: "map_of (users_file store_ab_voted) ''v'' = Some (new_user [] Male\<lparr>vote_times := [5]\<rparr>)"
    and 2: "pairs_for store_ab_voted ''v'' (gender (new_user [] Male\<lparr>vote_times := [5]\<rparr>)) = []"
    and 3: "pairs_for store_ab_voted ''v'' Male = []"
    by code_simp+
  from blocked_attempt_writes_nothing [OF 1, of 7 0 RightClick] 1 2 3
  show ?thesis by blast
qed

section \<open>Rating-proximity matching and accepted votes\<close>

lemma candidate_no_elo: "candidate users tried False = (\<lambda>p. p \<notin> set tried)"
  by (rule ext) (simp add: candidate_def)

lemma build_possible_pairs_cold:
  assumes "uploaded_photos_count users < 30"
  shows "build_possible_pairs users tried el = Inr (filter (\<lambda>p. p \<notin> set tried) (all_pairs el))"
proof -
  have f: "use_elo_matching users = False"
    using assms by (simp add: use_elo_matching_def)
  show ?thesis
    unfolding build_possible_pairs_def f
    using outer_loop_ok [of False el users tried "[]"]
    by (simp add: candidate_no_elo)
qed

lemma similar_elo_D:
  assumes "similar_elo users (a, b)"
  shows "\<exists>ua ub. map_of users a = Some ua \<and> map_of users b = Some ub
           \<and> \<bar>elo ua - elo ub\<bar> \<le> 100"
  using assms by (auto simp: similar_elo_def split: option.splits)

text \<open>
  C4: with fewer than 30 uploaded photos in the whole users file the two loops collect
  every sorted pair that is not in the voter's history, whatever the ratings, and the
  run selects among these; with 30 or more, the two ratings of a selected pair differ by
  at most 100.
\<close>

theorem elo_matching_threshold:
  "(uploaded_photos_count users < 30 \<longrightarrow>
      build_possible_pairs users tried el = Inr (filter (\<lambda>p. p \<notin> set tried) (all_pairs el)))
   \<and> (uploaded_photos_count (users_file st) < 30 \<longrightarrow>
        pairs_for st v g
          = filter (\<lambda>p. p \<notin> set (tried_of st v)) (all_pairs (eligible (users_file st) v g)))
   \<and> (30 \<le> uploaded_photos_count (users_file st)
        \<and> vote_page st v now rnd click = Inr (vw, st') \<and> pair_of vw = Some (a, b) \<longrightarrow>
        (\<exists>ua ub. map_of (users_file st) a = Some ua \<and> map_of (users_file st) b = Some ub
            \<and> \<bar>elo ua - elo ub\<bar> \<le> 100))"
proof -
  have A: "uploaded_photos_count users < 30 \<longrightarrow>
      build_possible_pairs users tried el = Inr (filter (\<lambda>p. p \<notin> set tried) (all_pairs el))"
    using build_possible_pairs_cold by blast
  have B: "uploaded_photos_count (users_file st) < 30 \<longrightarrow>
        pairs_for st v g
          = filter (\<lambda>p. p \<notin> set (tried_of st v)) (all_pairs (eligible (users_file st) v g))"
    by (simp add: pairs_for_def use_elo_matching_def candidate_no_elo)
  have C: "\<exists>ua ub. map_of (users_file st) a = Some ua \<and> map_of (users_file st) b = Some ub
            \<and> \<bar>elo ua - elo ub\<bar> \<le> 100"
    if c: "30 \<le> uploaded_photos_count (users_file st)"
      and r: "vote_page st v now rnd click = Inr (vw, st')" and p: "pair_of vw = Some (a, b)"
  proof -
    from selected_in_pairs_for [OF r p] obtain me :: user
      where "(a, b) \<in> set (pairs_for st v (gender me))" by blast
    from pairs_for_member(5) [OF this] c have "similar_elo (users_file st) (a, b)"
      by (simp add: use_elo_matching_def)
    then show ?thesis by (rule similar_elo_D)
  qed
  from A B C show ?thesis by blast
qed

theorem elo_matching_threshold_witness:
  "uploaded_photos_count (users_file store_far) < 30
   \<and> build_possible_pairs (users_file store_far) [] [''a'', ''c''] = Inr [(''a'', ''c'')]
   \<and> 30 \<le> uploaded_photos_count (users_file store_30)
   \<and> vote_page store_30 ''v'' 0 0 NoClick = Inr (ShowPair ''a'' ''b'', store_30)
   \<and> (\<exists>ua ub. map_of (users_file store_30) ''a'' = Some ua
         \<and> map_of (users_file store_30) ''b'' = Some ub \<and> \<bar>elo ua - elo ub\<bar> \<le> 100)"
proof -
  have 1: "uploaded_photos_count (users_file store_far) < 30"
    and 2: "filter (\<lambda>p. p \<notin> set []) (all_pairs [''a'', ''c'']) = [(''a'', ''c'')]"
    and 3: "30 \<le> uploaded_photos_count (users_file store_30)"
    and 4: "vote_page store_30 ''v'' 0 0 NoClick = Inr (ShowPair ''a'' ''b'', store_30)"
    by code_simp+
  have 5: "pair_of (ShowPair ''a'' ''b'') = Some (''a'', ''b'')" by simp
  from elo_matching_threshold [of "users_file store_far" "[]" "[''a'', ''c'']" store_30 "''v''"
      Male 0 0 NoClick "ShowPair ''a'' ''b''" store_30 "''a''" "''b''"] 1 2 3 4 5
  show ?thesis by simp
qed

text \<open>
  C7: a run that accepts a vote on the pair \<open>(a, b)\<close> calls \<open>update_elo\<close> once, on the
  two stored ratings and the outcome 1 for the left button and 0 for the right one, and
  stores both results; it adds 1 to \<open>matches_played\<close> of both, appends the sorted pair
  to the voter's history and the time of the run to the voter's pruned \<open>vote_times\<close>, and
  changes nothing else. With \<open>a\<close> and \<open>b\<close> at 1200 and a vote for \<open>a\<close>, \<open>a\<close> ends at 1216
  and \<open>b\<close> at 1184, both with one match, and the history holds \<open>(a, b)\<close>.
\<close>

theorem accepted_vote_effect:
  assumes "distinct (map fst (users_file st))"
    and "vote_page st v now rnd click = Inr (Voted a b, st')"
  shows "\<exists>me ua ub ra rb.
       map_of (users_file st) v = Some me
     \<and> map_of (users_file st) a = Some ua
     \<and> map_of (users_file st) b = Some ub
     \<and> a \<noteq> b \<and> a \<noteq> v \<and> b \<noteq> v
     \<and> (click = LeftClick \<or> click = RightClick)
     \<and> (ra, rb) = update_elo (of_int (elo ua)) (of_int (elo ub))
                     (if click = LeftClick then 1 else 0)
     \<and> map_of (users_file st') a
          = Some (ua\<lparr>elo := ra, matches_played := matches_played ua + 1\<rparr>)
     \<and> map_of (users_file st') b
          = Some (ub\<lparr>elo := rb, matches_played := matches_played ub + 1\<rparr>)
     \<and> map_of (users_file st') v
          = Some (me\<lparr>vote_times := prune_vote_times now (vote_times me) @ [now]\<rparr>)
     \<and> (\<forall>k. k \<noteq> a \<and> k \<noteq> b \<and> k \<noteq> v
            \<longrightarrow> map_of (users_file st') k = map_of (users_file st) k)
     \<and> map fst (users_file st') = map fst (users_file st)
     \<and> sorted_pair a b = (a, b)
     \<and> map_of (votes_file st') v = Some (tried_of st v @ [(a, b)])
     \<and> (\<forall>k. k \<noteq> v \<longrightarrow> map_of (votes_file st') k = map_of (votes_file st) k)"
  using assms(2)
proof (cases rule: vote_page_cases)
  case (voted me p)
  let ?sa = "if click = LeftClick then 1 else 0 :: real"
  have ab: "fst p = a" "snd p = b" and pab: "p = (a, b)"
    using voted(5) by (simp_all add: prod_eq_iff)
  from cast_vote_in_page [OF voted(1) voted(3) assms(1), of now ?sa] voted(6)
  obtain ua ub where
    ua: "map_of (users_file st) a = Some ua" and ub: "map_of (users_file st) b = Some ub"
    and k: "map fst (users_file st') = map fst (users_file st)"
    and a': "map_of (users_file st') a
          = Some (voted_user (fst (update_elo (of_int (elo ua)) (of_int (elo ub)) ?sa)) ua)"
    and b': "map_of (users_file st') b
          = Some (voted_user (snd (update_elo (of_int (elo ua)) (of_int (elo ub)) ?sa)) ub)"
    and v': "map_of (users_file st') v
          = Some (me\<lparr>vote_times := prune_vote_times now (vote_times me) @ [now]\<rparr>)"
    and o: "\<forall>k. k \<noteq> a \<and> k \<noteq> b \<and> k \<noteq> v
            \<longrightarrow> map_of (users_file st') k = map_of (users_file st) k"
    and h: "map_of (votes_file st') v = Some (tried_of st v @ [(a, b)])"
    and ho: "\<forall>k. k \<noteq> v \<longrightarrow> map_of (votes_file st') k = map_of (votes_file st) k"
    unfolding ab pab by auto
  note m = pairs_for_member [OF voted(3)]
  have lt: "a < b" using m(6) [OF assms(1)] ab by simp
  then have ne: "a \<noteq> b" and sp: "sorted_pair a b = (a, b)"
    by (auto simp: sorted_pair_def dest: less_asym)
  have nv: "a \<noteq> v" "b \<noteq> v"
    using m(1,2) ab by (auto dest: eligible_not_voter)
  have cl: "click = LeftClick \<or> click = RightClick"
    using voted(4) by (cases click) simp_all
  define ra where "ra = fst (update_elo (of_int (elo ua)) (of_int (elo ub)) ?sa)"
  define rb where "rb = snd (update_elo (of_int (elo ua)) (of_int (elo ub)) ?sa)"
  have r: "(ra, rb) = update_elo (of_int (elo ua)) (of_int (elo ub)) ?sa"
    by (simp add: ra_def rb_def)
  have a'': "map_of (users_file st') a
          = Some (ua\<lparr>elo := ra, matches_played := matches_played ua + 1\<rparr>)"
    and b'': "map_of (users_file st') b
          = Some (ub\<lparr>elo := rb, matches_played := matches_played ub + 1\<rparr>)"
    using a' b' by (simp_all add: voted_user_def ra_def rb_def)
  from voted(1) ua ub ne nv cl r a'' b'' v' o k sp h ho show ?thesis by blast
qed simp_all

theorem accepted_vote_effect_witness:
  "distinct (map fst (users_file store_ab))
   \<and> vote_page store_ab ''v'' 5 0 LeftClick = Inr (Voted ''a'' ''b'', store_ab_voted)
   \<and> map_of (users_file store_ab) ''a'' = Some (photo_user Male 1200)
   \<and> map_of (users_file store_ab) ''b'' = Some (photo_user Male 1200)
   \<and> map_of (users_file store_ab_voted) ''a''
       = Some (photo_user Male 1200\<lparr>elo := 1216, matches_played := 1\<rparr>)
   \<and> map_of (users_file store_ab_voted) ''b''
       = Some (photo_user Male 1200\<lparr>elo := 1184, matches_played := 1\<rparr>)
   \<and> map_of (votes_file store_ab_voted) ''v'' = Some [(''a'', ''b'')]"
proof -
  have d: "distinct (map fst (users_file store_ab))" by code_simp
  have r: "vote_page store_ab ''v'' 5 0 LeftClick = Inr (Voted ''a'' ''b'', store_ab_voted)"
    by (simp add: vote_page_def store_ab_def store_ab_voted_def photo_user_def new_user_def
        prune_vote_times_def MAX_VOTES_PER_HOUR_def eligible_def has_pic_def
        build_possible_pairs_def use_elo_matching_def uploaded_photos_count_def try_pair_def
        sorted_pair_def Let_def cast_vote_def dict_modify_def update_elo_def
        expected_score_equal K_FACTOR_def py_round_numeral BASE_ELO_def)
  have a: "map_of (users_file store_ab) ''a'' = Some (photo_user Male 1200)"
    and b: "map_of (users_file store_ab) ''b'' = Some (photo_user Male 1200)"
    and t: "tried_of store_ab ''v'' = []"
    by code_simp+
  have u: "update_elo (of_int (elo (photo_user Male 1200))) (of_int (elo (photo_user Male 1200))) 1
             = (1216, 1184)"
    by (simp add: photo_user_def update_elo_def expected_score_equal K_FACTOR_def
        py_round_numeral Let_def)
  have m: "matches_played (photo_user Male 1200) = 0"
    by (simp add: photo_user_def new_user_def)
  from accepted_vote_effect [OF d r] a b t u m d r show ?thesis
    by (auto simp: prod_eq_iff)
qed

section \<open>Histories and timestamps along a sequence of runs\<close>


lemma run_Nil: "run st [] = st"
  by (simp add: run_def)

lemma run_Cons: "run st (x # xs) = run (step st x) xs"
  by (simp add: run_def)


lemma step_not_accepted: "\<not> accepted st x \<Longrightarrow> step st x = st"
proof (cases "vote_page st (voter x) (at_time x) (draw x) (clicked x)")
  case (Inl e)
  then show ?thesis by (simp add: step_def)
next
  case (Inr r)
  obtain vw st' where r: "r = (vw, st')" by (cases r)
  assume na: "\<not> accepted st x"
  from Inr [unfolded r] have "st' = st"
  proof (cases rule: vote_page_cases)
    case (voted me p)
    with na Inr r show ?thesis by (simp add: accepted_def)
  qed simp_all
  with Inr r show ?thesis by (simp add: step_def)
qed

lemma accepted_D:
  assumes "accepted st x"
  shows "\<exists>a b. vote_page st (voter x) (at_time x) (draw x) (clicked x)
                  = Inr (Voted a b, step st x)"
  using assms
  by (auto simp: accepted_def step_def split: sum.splits view.splits)

lemma voted_D:
  assumes "vote_page st v now rnd click = Inr (Voted a b, st')"
  shows "\<exists>me. map_of (users_file st) v = Some me
           \<and> length (prune_vote_times now (vote_times me)) < MAX_VOTES_PER_HOUR
           \<and> (a, b) \<in> set (pairs_for st v (gender me))
           \<and> (\<exists>sa. cast_vote (dict_modify (users_file st) v (pruned now)) (votes_of st v)
                        v now a b sa = Inr st')"
  using assms
proof (cases rule: vote_page_cases)
  case (voted me p)
  have p: "p = (a, b)" using voted(5) by (simp add: prod_eq_iff)
  from voted(1,2,3,6) show ?thesis unfolding p by auto
qed simp_all








lemma stored_times_Some: "map_of (users_file st) v = Some me \<Longrightarrow> stored_times st v = vote_times me"
  by (simp add: stored_times_def)

lemma stored_times_cong:
  "map_option vote_times (map_of (users_file st') v) = map_option vote_times (map_of (users_file st) v)
     \<Longrightarrow> stored_times st' v = stored_times st v"
  by (cases "map_of (users_file st') v"; cases "map_of (users_file st) v")
    (simp_all add: stored_times_def)

lemma step_times_other:
  assumes "voter x \<noteq> v"
  shows "stored_times (step st x) v = stored_times st v"
proof (cases "accepted st x")
  case False
  then show ?thesis by (simp add: step_not_accepted)
next
  case True
  from accepted_D [OF this] obtain a b
    where "vote_page st (voter x) (at_time x) (draw x) (clicked x) = Inr (Voted a b, step st x)"
    by blast
  from voted_D [OF this] obtain sa
    where c: "cast_vote (dict_modify (users_file st) (voter x) (pruned (at_time x)))
                (votes_of st (voter x)) (voter x) (at_time x) a b sa = Inr (step st x)"
    by blast
  from cast_vote_result(4) [OF c assms]
  have "map_option vote_times (map_of (users_file (step st x)) v)
          = map_option vote_times (map_of (users_file st) v)"
    using assms by (simp add: map_of_dict_modify)
  then show ?thesis by (rule stored_times_cong)
qed

lemma step_times_voter:
  assumes "accepted st x"
  shows "stored_times (step st x) (voter x)
           = prune_vote_times (at_time x) (stored_times st (voter x)) @ [at_time x]"
proof -
  from accepted_D [OF assms] obtain a b
    where "vote_page st (voter x) (at_time x) (draw x) (clicked x) = Inr (Voted a b, step st x)"
    by blast
  from voted_D [OF this] obtain me :: user and sa
    where me: "map_of (users_file st) (voter x) = Some me"
      and mem: "(a, b) \<in> set (pairs_for st (voter x) (gender me))"
      and c: "cast_vote (dict_modify (users_file st) (voter x) (pruned (at_time x)))
                (votes_of st (voter x)) (voter x) (at_time x) a b sa = Inr (step st x)"
    by blast
  note m = pairs_for_member [OF mem]
  have "voter x \<noteq> a" "voter x \<noteq> b"
    using m(1,2) by (auto dest: eligible_not_voter)
  from cast_vote_result(3) [OF c this]
  have "map_of (users_file (step st x)) (voter x)
          = Some (me\<lparr>vote_times := prune_vote_times (at_time x) (vote_times me) @ [at_time x]\<rparr>)"
    using me by (simp add: map_of_dict_modify pruned_def)
  then show ?thesis
    using me by (simp add: stored_times_def)
qed

lemma prune_keeps_window:
  assumes "now < T + hour"
  shows "filter (\<lambda>t. T \<le> t) (prune_vote_times now ts) = filter (\<lambda>t. T \<le> t) ts"
  unfolding prune_vote_times_def filter_filter
  by (rule filter_cong) (use assms in auto)

lemma window_in_prune:
  assumes "now < T + hour"
  shows "length (filter (\<lambda>t. T \<le> t) ts) \<le> length (prune_vote_times now ts)"
proof -
  have "length (filter (\<lambda>t. T \<le> t) (prune_vote_times now ts)) \<le> length (prune_vote_times now ts)"
    by (rule length_filter_le)
  then show ?thesis by (simp add: prune_keeps_window [OF assms])
qed

lemma accepted_votes_stored:
  assumes "\<forall>x\<in>set xs. voter x = v \<longrightarrow> at_time x < T + hour \<and> T \<le> at_time x"
  shows "length (filter (\<lambda>t. T \<le> t) (stored_times (run st xs) v))
           = accepted_votes st v xs + length (filter (\<lambda>t. T \<le> t) (stored_times st v))"
  using assms
proof (induction xs arbitrary: st)
  case Nil
  show ?case by (simp add: run_Nil)
next
  case (Cons x xs)
  have IH: "length (filter (\<lambda>t. T \<le> t) (stored_times (run (step st x) xs) v))
           = accepted_votes (step st x) v xs
             + length (filter (\<lambda>t. T \<le> t) (stored_times (step st x) v))"
    using Cons.prems by (intro Cons.IH) simp
  have "length (filter (\<lambda>t. T \<le> t) (stored_times (step st x) v))
          = (if voter x = v \<and> accepted st x then 1 else 0)
            + length (filter (\<lambda>t. T \<le> t) (stored_times st v))"
  proof (cases "voter x = v \<and> accepted st x")
    case True
    then have w: "at_time x < T + hour" "T \<le> at_time x" using Cons.prems by simp_all
    from True step_times_voter [of st x] show ?thesis
      by (simp add: prune_keeps_window [OF w(1)] w(2))
  next
    case False
    then have "stored_times (step st x) v = stored_times st v"
      using step_times_other [of x v st] step_not_accepted [of st x] by auto
    with False show ?thesis by auto
  qed
  with IH show ?case by (simp add: run_Cons)
qed

section \<open>Rate limiter\<close>

lemma limit_iff:
  assumes "map_of (users_file st) v = Some me"
  shows "(\<exists>s. vote_page st v now rnd click = Inr (LimitReached, s))
           \<longleftrightarrow> MAX_VOTES_PER_HOUR \<le> length (prune_vote_times now (vote_times me))"
proof
  assume "\<exists>s. vote_page st v now rnd click = Inr (LimitReached, s)"
  then obtain s where "vote_page st v now rnd click = Inr (LimitReached, s)" by blast
  then show "MAX_VOTES_PER_HOUR \<le> length (prune_vote_times now (vote_times me))"
    using assms by (cases rule: vote_page_cases) simp_all
next
  assume "MAX_VOTES_PER_HOUR \<le> length (prune_vote_times now (vote_times me))"
  from vote_page_limit [OF assms this] show "\<exists>s. vote_page st v now rnd click = Inr (LimitReached, s)"
    by blast
qed

lemma window_full_limit:
  assumes w: "\<forall>x\<in>set xs. voter x = v \<longrightarrow> T \<le> at_time x \<and> at_time x < T + hour"
    and n: "15 \<le> accepted_votes st v xs + length (filter (\<lambda>t. T \<le> t) (stored_times st v))"
    and now: "now < T + hour"
  shows "vote_page (run st xs) v now rnd click = Inr (LimitReached, run st xs)"
proof -
  have "length (filter (\<lambda>t. T \<le> t) (stored_times (run st xs) v))
           = accepted_votes st v xs + length (filter (\<lambda>t. T \<le> t) (stored_times st v))"
    using w by (intro accepted_votes_stored) auto
  with n have f: "15 \<le> length (filter (\<lambda>t. T \<le> t) (stored_times (run st xs) v))" by simp
  then have "stored_times (run st xs) v \<noteq> []" by auto
  then obtain me where me: "map_of (users_file (run st xs)) v = Some me"
    by (cases "map_of (users_file (run st xs)) v") (auto simp: stored_times_def)
  from f window_in_prune [OF now, of "stored_times (run st xs) v"]
  have "MAX_VOTES_PER_HOUR \<le> length (prune_vote_times now (vote_times me))"
    by (simp add: stored_times_Some [OF me] MAX_VOTES_PER_HOUR_def)
  from vote_page_limit [OF me this] show ?thesis .
qed

lemma window_elapsed:
  assumes "map_of (users_file st) v = Some me"
    and "\<forall>t\<in>set (vote_times me). t + 3660000000 \<le> now"
  shows "vote_page st v now rnd click \<noteq> Inr (LimitReached, s)"
proof -
  have "prune_vote_times now (vote_times me) = []"
    using assms(2) by (auto simp: prune_vote_times_def hour_def filter_empty_conv)
  then have "\<not> MAX_VOTES_PER_HOUR \<le> length (prune_vote_times now (vote_times me))"
    by (simp add: MAX_VOTES_PER_HOUR_def)
  with limit_iff [OF assms(1), of now rnd click] show ?thesis by blast
qed

text \<open>
  C5: the stored timestamps are pruned to those less than one hour before \<open>now\<close>, and
  the run is rejected exactly when 15 or more remain; an accepted vote stores its time
  after the pruned ones, so that once the votes accepted in a sequence of runs and the
  timestamps stored before it make 15 within one hour, the next attempt within that hour
  is rejected; and when every stored timestamp is 61 minutes old or older, the voter is
  not rejected.
\<close>

theorem rate_limit:
  "(map_of (users_file st) v = Some me \<longrightarrow>
      prune_vote_times now (vote_times me) = filter (\<lambda>t. now - t < 3600000000) (vote_times me)
      \<and> ((\<exists>s. vote_page st v now rnd click = Inr (LimitReached, s))
           \<longleftrightarrow> 15 \<le> length (prune_vote_times now (vote_times me))))
   \<and> (accepted st x \<longrightarrow>
        stored_times (step st x) (voter x)
          = prune_vote_times (at_time x) (stored_times st (voter x)) @ [at_time x])
   \<and> ((\<forall>x\<in>set xs. voter x = v \<longrightarrow> T \<le> at_time x \<and> at_time x < T + 3600000000)
       \<and> 15 \<le> accepted_votes st v xs + length (filter (\<lambda>t. T \<le> t) (stored_times st v))
       \<and> now < T + 3600000000
       \<longrightarrow> vote_page (run st xs) v now rnd click = Inr (LimitReached, run st xs))
   \<and> (map_of (users_file st) v = Some me \<and> (\<forall>t\<in>set (vote_times me). t + 3660000000 \<le> now)
       \<longrightarrow> (\<forall>s. vote_page st v now rnd click \<noteq> Inr (LimitReached, s)))"
proof -
  have A: "prune_vote_times now (vote_times me) = filter (\<lambda>t. now - t < 3600000000) (vote_times me)"
    by (simp add: prune_vote_times_def hour_def)
  have B: "(\<exists>s. vote_page st v now rnd click = Inr (LimitReached, s))
           \<longleftrightarrow> 15 \<le> length (prune_vote_times now (vote_times me))"
    if "map_of (users_file st) v = Some me"
    using limit_iff [OF that] by (simp add: MAX_VOTES_PER_HOUR_def)
  have C: "vote_page (run st xs) v now rnd click = Inr (LimitReached, run st xs)"
    if "\<forall>x\<in>set xs. voter x = v \<longrightarrow> T \<le> at_time x \<and> at_time x < T + 3600000000"
      "15 \<le> accepted_votes st v xs + length (filter (\<lambda>t. T \<le> t) (stored_times st v))"
      "now < T + 3600000000"
    using that by (intro window_full_limit [where T = T]) (simp_all add: hour_def)
  from A B C step_times_voter [of st x] window_elapsed [of st v me now rnd click]
  show ?thesis by blast
qed

lemma store_busy_vote:
  "vote_page store_busy ''v'' 20 0 LeftClick = Inr (Voted ''a'' ''b'', store_busy_voted)"
  by (simp add: vote_page_def store_busy_def store_busy_voted_def photo_user_def new_user_def
      prune_vote_times_def hour_def MAX_VOTES_PER_HOUR_def eligible_def has_pic_def
      build_possible_pairs_def use_elo_matching_def uploaded_photos_count_def try_pair_def
      sorted_pair_def Let_def cast_vote_def dict_modify_def update_elo_def
      expected_score_equal K_FACTOR_def py_round_numeral BASE_ELO_def)

theorem rate_limit_witness:
  "accepted store_busy \<lparr>voter = ''v'', at_time = 20, draw = 0, clicked = LeftClick\<rparr>
   \<and> stored_times store_busy_voted ''v''
       = [1, 2, 3, 4, 5, 6, 7, 8, 9, 10, 11, 12, 13, 14, 20]
   \<and> vote_page store_busy_voted ''v'' 30 0 LeftClick = Inr (LimitReached, store_busy_voted)
   \<and> vote_page store_busy_voted ''v'' 3660000020 0 NoClick
       = Inr (ShowPair ''a'' ''c'', store_busy_voted)"
proof -
  let ?x = "\<lparr>voter = ''v'', at_time = 20, draw = 0, clicked = LeftClick\<rparr>"
  let ?me = "new_user [] Male\<lparr>vote_times := [1, 2, 3, 4, 5, 6, 7, 8, 9, 10, 11, 12, 13, 14, 20]\<rparr>"
  have a: "accepted store_busy ?x"
    by (simp add: accepted_def store_busy_vote)
  have s: "step store_busy ?x = store_busy_voted"
    by (simp add: step_def store_busy_vote)
  have r: "run store_busy [?x] = store_busy_voted"
    by (simp add: run_Cons run_Nil s)
  have t: "stored_times store_busy ''v'' = [1, 2, 3, 4, 5, 6, 7, 8, 9, 10, 11, 12, 13, 14]"
    by (simp add: stored_times_def store_busy_def)
  have p: "prune_vote_times 20 [1, 2, 3, 4, 5, 6, 7, 8, 9, 10, 11, 12, 13, 14]
             = [1, 2, 3, 4, 5, 6, 7, 8, 9, 10, 11, 12, 13, 14]"
    by (simp add: prune_vote_times_def hour_def)
  have w: "\<forall>x\<in>set [?x]. voter x = ''v'' \<longrightarrow> 0 \<le> at_time x \<and> at_time x < 0 + 3600000000"
    by simp
  have n: "15 \<le> accepted_votes store_busy ''v'' [?x]
                 + length (filter (\<lambda>t. 0 \<le> t) (stored_times store_busy ''v''))"
    by (simp add: a t)
  have me: "map_of (users_file store_busy_voted) ''v'' = Some ?me"
    by (simp add: store_busy_voted_def)
  have old: "\<forall>t\<in>set (vote_times ?me). t + 3660000000 \<le> 3660000020"
    by simp
  have sh: "vote_page store_busy_voted ''v'' 3660000020 0 NoClick
       = Inr (ShowPair ''a'' ''c'', store_busy_voted)"
    by code_simp
  from rate_limit [where st = store_busy and v = "''v''" and x = ?x and xs = "[?x]" and T = 0
      and now = 30 and rnd = 0 and click = LeftClick] a s t p w n
  have 1: "stored_times store_busy_voted ''v''
       = [1, 2, 3, 4, 5, 6, 7, 8, 9, 10, 11, 12, 13, 14, 20]"
    and 2: "vote_page store_busy_voted ''v'' 30 0 LeftClick = Inr (LimitReached, store_busy_voted)"
    by (simp_all add: r)
  from rate_limit [where st = store_busy_voted and v = "''v''" and me = ?me
      and now = 3660000020 and rnd = 0 and click = NoClick] me old
  have 3: "\<forall>s. vote_page store_busy_voted ''v'' 3660000020 0 NoClick \<noteq> Inr (LimitReached, s)"
    by blast
  from a 1 2 3 sh show ?thesis by blast
qed

end
